theory Spec2Isabelle
  imports Main
begin

section \<open>Data model\<close>

text \<open>
  A cell is the Python tuple \<open>(row, col)\<close> of unbounded integers.  The maze object comes
  from the pyamaze library: \<open>maze_map\<close> is a dictionary from cells to a dictionary whose
  keys are the four strings 'E', 'W', 'N', 'S' and whose values are the integers 0 and 1.
  The inner dictionary is kept as an association list, because the order of its items is
  the order of the moves that are enumerated.
\<close>

type_synonym cell = "int \<times> int"

datatype direction = East | West | North | South

record maze =
  maze_map :: "cell \<Rightarrow> (direction \<times> int) list option"
  rows :: int
  cols :: int

record game_search =
  maze :: maze
  goal_position :: cell

text \<open>\<open>self.MAX_DEPTH = 5\<close>, set by the constructor of every instance.\<close>

definition MAX_DEPTH :: int where
  "MAX_DEPTH = 5"

text \<open>
  The exceptions the search code can raise.  \<open>TypeError\<close> is what Python raises for
  \<open>dict(None)\<close>, \<open>float(None)\<close> and for an order comparison with \<open>None\<close>;
  \<open>ValueError\<close> is raised by \<open>find_best_move\<close> itself; \<open>RecursionError\<close> is raised
  by the interpreter when the call stack is exhausted.
\<close>

datatype error = TypeError | ValueError | RecursionError

text \<open>
  The numbers that the search handles: the integers returned by the utility function and
  the two floats \<open>float('-inf')\<close> and \<open>float('inf')\<close>.  \<open>float(e)\<close> of such an integer
  is the float of the same numeric value, and Python compares an integer and a float by
  numeric value, so one constructor stands for both.
\<close>

datatype val = NegInf | Num int | PosInf

fun val_less :: "val \<Rightarrow> val \<Rightarrow> bool" where
  "val_less NegInf NegInf = False"
| "val_less NegInf _ = True"
| "val_less (Num a) (Num b) = (a < b)"
| "val_less (Num a) PosInf = True"
| "val_less (Num a) NegInf = False"
| "val_less PosInf _ = False"

definition val_le :: "val \<Rightarrow> val \<Rightarrow> bool" where
  "val_le a b = (val_less a b \<or> a = b)"

text \<open>Python's \<open>max(a, b)\<close> keeps \<open>a\<close> unless \<open>b > a\<close>; \<open>min(a, b)\<close> keeps \<open>a\<close> unless \<open>b < a\<close>.\<close>

definition py_max :: "val \<Rightarrow> val \<Rightarrow> val" where
  "py_max a b = (if val_less a b then b else a)"

definition py_min :: "val \<Rightarrow> val \<Rightarrow> val" where
  "py_min a b = (if val_less b a then b else a)"

section \<open>Terminal test and utility\<close>

definition utility_function :: "game_search \<Rightarrow> cell \<Rightarrow> cell \<Rightarrow> int" where
  "utility_function g player_position opponent_position =
     (if player_position = goal_position g then 1
      else if opponent_position = goal_position g then - 1
      else 0)"

definition is_terminal :: "game_search \<Rightarrow> cell \<Rightarrow> cell \<Rightarrow> bool" where
  "is_terminal g player opponent =
     (player = goal_position g \<or> opponent = goal_position g)"

section \<open>Move enumeration\<close>

definition direction_map :: "direction \<Rightarrow> int \<times> int" where
  "direction_map d =
     (case d of East \<Rightarrow> (0, 1) | West \<Rightarrow> (0, - 1) | North \<Rightarrow> (- 1, 0) | South \<Rightarrow> (1, 0))"

text \<open>The loop over the items of the inner dictionary, appending to \<open>result\<close>.\<close>

fun moves_loop :: "maze \<Rightarrow> cell \<Rightarrow> (direction \<times> int) list \<Rightarrow> cell list \<Rightarrow> cell list" where
  "moves_loop m pos [] result = result"
| "moves_loop m pos ((direction, isOpen) # items) result =
     (if isOpen = 1 then
        (let new_row = fst pos + fst (direction_map direction);
             new_col = snd pos + snd (direction_map direction)
         in if 1 \<le> new_row \<and> new_row \<le> rows m \<and> 1 \<le> new_col \<and> new_col \<le> cols m
            then moves_loop m pos items (result @ [(new_row, new_col)])
            else moves_loop m pos items result)
      else moves_loop m pos items result)"

text \<open>
  \<open>maze_map.get(cell)\<close> is \<open>None\<close> for a cell without an entry, and \<open>dict(None)\<close>
  raises \<open>TypeError\<close>.
\<close>

definition get_possible_moves :: "game_search \<Rightarrow> cell \<Rightarrow> error + cell list" where
  "get_possible_moves g positions =
     (case maze_map (maze g) positions of
        None \<Rightarrow> Inl TypeError
      | Some possible_directions \<Rightarrow> Inr (moves_loop (maze g) positions possible_directions []))"

section \<open>Minimax\<close>

text \<open>
  The two loops of \<open>minimax\<close>.  The argument \<open>f\<close> is the recursive call made for a move;
  an exception raised there leaves the loop.
\<close>

fun max_loop :: "(cell \<Rightarrow> error + val) \<Rightarrow> cell list \<Rightarrow> val \<Rightarrow> error + val" where
  "max_loop f [] max_eval = Inr max_eval"
| "max_loop f (move # moves) max_eval =
     (case f move of
        Inl e \<Rightarrow> Inl e
      | Inr eval \<Rightarrow> max_loop f moves (py_max max_eval eval))"

fun min_loop :: "(cell \<Rightarrow> error + val) \<Rightarrow> cell list \<Rightarrow> val \<Rightarrow> error + val" where
  "min_loop f [] min_eval = Inr min_eval"
| "min_loop f (move # moves) min_eval =
     (case f move of
        Inl e \<Rightarrow> Inl e
      | Inr eval \<Rightarrow> min_loop f moves (py_min min_eval eval))"

text \<open>
  The recursion of the source stops at \<open>depth == MAX_DEPTH\<close> or at a terminal state, so for
  a depth above \<open>MAX_DEPTH\<close> it may go on until the interpreter's stack is exhausted.  The
  first argument is the number of stack frames left; with none left the call raises
  \<open>RecursionError\<close>.  Both branches enumerate \<open>get_possible_moves(player)\<close>, as the source
  does; the minimizing branch assigns the move to \<open>opponent\<close>.
\<close>

primrec minimax :: "game_search \<Rightarrow> nat \<Rightarrow> cell \<Rightarrow> cell \<Rightarrow> int \<Rightarrow> bool \<Rightarrow> error + val" where
  "minimax g 0 player opponent depth is_max_turn = Inl RecursionError"
| "minimax g (Suc fuel) player opponent depth is_max_turn =
     (if depth = MAX_DEPTH \<or> is_terminal g player opponent
      then Inr (Num (utility_function g player opponent))
      else if is_max_turn then
        (case get_possible_moves g player of
           Inl e \<Rightarrow> Inl e
         | Inr moves \<Rightarrow>
             max_loop (\<lambda>move. minimax g fuel move opponent (depth + 1) False) moves NegInf)
      else
        (case get_possible_moves g player of
           Inl e \<Rightarrow> Inl e
         | Inr moves \<Rightarrow>
             min_loop (\<lambda>move. minimax g fuel player move (depth + 1) True) moves PosInf))"

section \<open>Alpha-beta pruning\<close>

text \<open>
  The result is \<open>None\<close> where the Python function reaches its end without a
  \<open>return\<close>.  In the maximizing branch the \<open>return max_eval\<close> is inside the loop body:
  the first move is evaluated and then either the \<open>break\<close> leaves the loop, after which the
  function ends without a value, or \<open>max_eval\<close> is returned; with no move at all the
  function also ends without a value.  \<open>float(None)\<close> raises \<open>TypeError\<close>.
\<close>

fun ab_max_loop ::
  "(cell \<Rightarrow> val \<Rightarrow> error + val option) \<Rightarrow> cell list \<Rightarrow> val \<Rightarrow> val \<Rightarrow> val \<Rightarrow> error + val option"
where
  "ab_max_loop f [] max_eval alpha beta = Inr None"
| "ab_max_loop f (move # moves) max_eval alpha beta =
     (case f move alpha of
        Inl e \<Rightarrow> Inl e
      | Inr None \<Rightarrow> Inl TypeError
      | Inr (Some eval) \<Rightarrow>
          (let max_eval' = py_max max_eval eval;
               alpha' = py_max alpha eval
           in if val_le beta alpha' then Inr None else Inr (Some max_eval')))"

text \<open>
  The minimizing branch: \<open>min(min_eval, None)\<close> raises \<open>TypeError\<close>; the \<open>break\<close> leads
  to the \<open>return min_eval\<close> after the loop.
\<close>

fun ab_min_loop ::
  "(cell \<Rightarrow> val \<Rightarrow> error + val option) \<Rightarrow> cell list \<Rightarrow> val \<Rightarrow> val \<Rightarrow> val \<Rightarrow> error + val option"
where
  "ab_min_loop f [] min_eval alpha beta = Inr (Some min_eval)"
| "ab_min_loop f (move # moves) min_eval alpha beta =
     (case f move beta of
        Inl e \<Rightarrow> Inl e
      | Inr None \<Rightarrow> Inl TypeError
      | Inr (Some eval) \<Rightarrow>
          (let min_eval' = py_min min_eval eval;
               beta' = py_min beta eval
           in if val_le beta' alpha then Inr (Some min_eval')
              else ab_min_loop f moves min_eval' alpha beta'))"

primrec alpha_beta_pruning ::
  "game_search \<Rightarrow> nat \<Rightarrow> cell \<Rightarrow> cell \<Rightarrow> int \<Rightarrow> val \<Rightarrow> val \<Rightarrow> bool \<Rightarrow> error + val option"
where
  "alpha_beta_pruning g 0 player opponent depth alpha beta is_max_turn = Inl RecursionError"
| "alpha_beta_pruning g (Suc fuel) player opponent depth alpha beta is_max_turn =
     (if depth = MAX_DEPTH \<or> is_terminal g player opponent
      then Inr (Some (Num (utility_function g player opponent)))
      else if is_max_turn then
        (case get_possible_moves g player of
           Inl e \<Rightarrow> Inl e
         | Inr moves \<Rightarrow>
             ab_max_loop
               (\<lambda>move a. alpha_beta_pruning g fuel move opponent (depth + 1) a beta False)
               moves NegInf alpha beta)
      else
        (case get_possible_moves g player of
           Inl e \<Rightarrow> Inl e
         | Inr moves \<Rightarrow>
             ab_min_loop
               (\<lambda>move b. alpha_beta_pruning g fuel player move (depth + 1) alpha b True)
               moves PosInf alpha beta))"

section \<open>Best-move selection\<close>

text \<open>
  The loop of \<open>find_best_move\<close>.  The search is called with the positions the function was
  given: the loop variable \<open>move\<close> is used only for \<open>best_move\<close>.  The tag is tested
  inside the loop body; \<open>move_val > best_val\<close> with \<open>move_val = None\<close> raises
  \<open>TypeError\<close>.
\<close>

fun best_loop ::
  "game_search \<Rightarrow> nat \<Rightarrow> cell \<Rightarrow> cell \<Rightarrow> string \<Rightarrow> cell list \<Rightarrow> val \<Rightarrow> cell option
     \<Rightarrow> error + cell option"
where
  "best_loop g fuel player opponent algorithm [] best_val best_move = Inr best_move"
| "best_loop g fuel player opponent algorithm (move # moves) best_val best_move =
     (case (if algorithm = ''MM'' then map_sum id Some (minimax g fuel player opponent 0 False)
            else if algorithm = ''AB''
              then alpha_beta_pruning g fuel player opponent 0 NegInf PosInf False
            else Inl ValueError) of
        Inl e \<Rightarrow> Inl e
      | Inr None \<Rightarrow> Inl TypeError
      | Inr (Some move_val) \<Rightarrow>
          (if val_less best_val move_val
           then best_loop g fuel player opponent algorithm moves move_val (Some move)
           else best_loop g fuel player opponent algorithm moves best_val best_move))"

definition find_best_move ::
  "game_search \<Rightarrow> nat \<Rightarrow> cell \<Rightarrow> cell \<Rightarrow> string \<Rightarrow> error + cell option"
where
  "find_best_move g fuel player opponent algorithm =
     (case get_possible_moves g player of
        Inl e \<Rightarrow> Inl e
      | Inr moves \<Rightarrow> best_loop g fuel player opponent algorithm moves NegInf None)"

section \<open>Concrete mazes\<close>

text \<open>
  A corridor of one row and three columns with every inner passage open, in the item order
  pyamaze uses (E, W, N, S), and a maze of one row and two columns whose passages are all
  closed.
\<close>

definition corridor3 :: maze where
  "corridor3 = \<lparr> maze_map = map_of
      [((1, 1), [(East, 1), (West, 0), (North, 0), (South, 0)]),
       ((1, 2), [(East, 1), (West, 1), (North, 0), (South, 0)]),
       ((1, 3), [(East, 0), (West, 1), (North, 0), (South, 0)])],
     rows = 1, cols = 3 \<rparr>"

definition sealed2 :: maze where
  "sealed2 = \<lparr> maze_map = map_of
      [((1, 1), [(East, 0), (West, 0), (North, 0), (South, 0)]),
       ((1, 2), [(East, 0), (West, 0), (North, 0), (South, 0)])],
     rows = 1, cols = 2 \<rparr>"

text \<open>The constructor \<open>GameSearch(maze, goal_position)\<close>.\<close>

definition engine :: "maze \<Rightarrow> cell \<Rightarrow> game_search" where
  "engine m goal = \<lparr> maze = m, goal_position = goal \<rparr>"

section \<open>Move enumeration: lookup and bounds\<close>

lemma moves_loop_mem:
  "x \<in> set (moves_loop m pos items result) \<Longrightarrow>
     x \<in> set result \<or>
     (\<exists>d. (d, 1) \<in> set items \<and>
          x = (fst pos + fst (direction_map d), snd pos + snd (direction_map d)) \<and>
          1 \<le> fst x \<and> fst x \<le> rows m \<and> 1 \<le> snd x \<and> snd x \<le> cols m)"
proof (induction items arbitrary: result)
  case Nil
  then show ?case by simp
next
  case (Cons it items)
  obtain d b where it: "it = (d, b)" by (cases it)
  show ?case
    using Cons.IH Cons.prems unfolding it
    by (fastforce simp: Let_def split: if_splits)
qed

lemma direction_map_cases:
  "direction_map d \<in> {(0, 1), (0, - 1), (- 1, 0), (1, 0)}"
  by (cases d) (simp_all add: direction_map_def)

text \<open>
  Claim C7.  A query for a cell without an entry in \<open>maze_map\<close> fails with an exception
  (\<open>TypeError\<close>, from \<open>dict(None)\<close>) and does not return an empty list; a query for a
  cell with an entry returns a list.
\<close>

theorem get_possible_moves_lookup:
  "(maze_map (maze g) c = None \<longrightarrow> get_possible_moves g c = Inl TypeError) \<and>
   (maze_map (maze g) c \<noteq> None \<longrightarrow> (\<exists>ms. get_possible_moves g c = Inr ms))"
  by (auto simp: get_possible_moves_def)

theorem get_possible_moves_lookup_witness:
  "maze_map (maze (engine corridor3 (1, 3))) (2, 2) = None \<and>
   get_possible_moves (engine corridor3 (1, 3)) (2, 2) = Inl TypeError \<and>
   maze_map (maze (engine corridor3 (1, 3))) (1, 2) \<noteq> None \<and>
   (\<exists>ms. get_possible_moves (engine corridor3 (1, 3)) (1, 2) = Inr ms)"
  using get_possible_moves_lookup [of "engine corridor3 (1, 3)" "(2, 2)"]
        get_possible_moves_lookup [of "engine corridor3 (1, 3)" "(1, 2)"]
  by (simp add: engine_def corridor3_def)

text \<open>
  Claim C8.  For a cell \<open>c\<close> with an entry, the enumeration returns a list, and every cell
  of it lies in \<open>[1, rows] \<times> [1, cols]\<close> and is \<open>c\<close> moved by one of the four offsets of
  \<open>direction_map\<close>: one unit step in one axis.
\<close>

theorem get_possible_moves_bounds:
  assumes "maze_map (maze g) c = Some ds"
  shows "\<exists>ms. get_possible_moves g c = Inr ms \<and>
           (\<forall>x \<in> set ms.
              1 \<le> fst x \<and> fst x \<le> rows (maze g) \<and> 1 \<le> snd x \<and> snd x \<le> cols (maze g) \<and>
              (fst x - fst c, snd x - snd c) \<in> {(0, 1), (0, - 1), (- 1, 0), (1, 0)} \<and>
              \<bar>fst x - fst c\<bar> + \<bar>snd x - snd c\<bar> = 1)"
proof -
  have ms: "get_possible_moves g c = Inr (moves_loop (maze g) c ds [])"
    using assms by (simp add: get_possible_moves_def)
  have "1 \<le> fst x \<and> fst x \<le> rows (maze g) \<and> 1 \<le> snd x \<and> snd x \<le> cols (maze g) \<and>
        (fst x - fst c, snd x - snd c) \<in> {(0, 1), (0, - 1), (- 1, 0), (1, 0)} \<and>
        \<bar>fst x - fst c\<bar> + \<bar>snd x - snd c\<bar> = 1"
    if "x \<in> set (moves_loop (maze g) c ds [])" for x
  proof -
    from moves_loop_mem [OF that] obtain d where
      x: "x = (fst c + fst (direction_map d), snd c + snd (direction_map d))" and
      b: "1 \<le> fst x \<and> fst x \<le> rows (maze g) \<and> 1 \<le> snd x \<and> snd x \<le> cols (maze g)"
      by auto
    have "(fst x - fst c, snd x - snd c) = direction_map d"
      using x by simp
    with direction_map_cases [of d] b show ?thesis by auto
  qed
  with ms show ?thesis by blast
qed

theorem get_possible_moves_bounds_witness:
  "maze_map (maze (engine corridor3 (1, 3))) (1, 2)
     = Some [(East, 1), (West, 1), (North, 0), (South, 0)] \<and>
   (\<exists>ms. get_possible_moves (engine corridor3 (1, 3)) (1, 2) = Inr ms \<and> ms \<noteq> [] \<and>
      (\<forall>x \<in> set ms.
         1 \<le> fst x \<and> fst x \<le> rows (maze (engine corridor3 (1, 3))) \<and>
         1 \<le> snd x \<and> snd x \<le> cols (maze (engine corridor3 (1, 3))) \<and>
         (fst x - fst ((1, 2) :: cell), snd x - snd ((1, 2) :: cell))
           \<in> {(0, 1), (0, - 1), (- 1, 0), (1, 0)} \<and>
         \<bar>fst x - fst ((1, 2) :: cell)\<bar> + \<bar>snd x - snd ((1, 2) :: cell)\<bar> = 1))"
proof -
  have h: "maze_map (maze (engine corridor3 (1, 3))) (1, 2)
             = Some [(East, 1), (West, 1), (North, 0), (South, 0)]"
    by (simp add: engine_def corridor3_def)
  have e: "get_possible_moves (engine corridor3 (1, 3)) (1, 2) = Inr [(1, 3), (1, 1)]"
    by code_simp
  from get_possible_moves_bounds [OF h] obtain ms where
    ms: "get_possible_moves (engine corridor3 (1, 3)) (1, 2) = Inr ms" and
    b: "\<forall>x \<in> set ms.
         1 \<le> fst x \<and> fst x \<le> rows (maze (engine corridor3 (1, 3))) \<and>
         1 \<le> snd x \<and> snd x \<le> cols (maze (engine corridor3 (1, 3))) \<and>
         (fst x - fst ((1, 2) :: cell), snd x - snd ((1, 2) :: cell))
           \<in> {(0, 1), (0, - 1), (- 1, 0), (1, 0)} \<and>
         \<bar>fst x - fst ((1, 2) :: cell)\<bar> + \<bar>snd x - snd ((1, 2) :: cell)\<bar> = 1"
    by (elim exE conjE)
  from ms e have "ms \<noteq> []" by auto
  with h ms b show ?thesis by (intro conjI exI [of _ ms])
qed

section \<open>Terminal test and utility: properties\<close>

text \<open>
  Claim C9.  \<open>is_terminal\<close> holds exactly when the player or the opponent is at the goal.
  The utility is 1 when the player is at the goal, -1 when the opponent is at the goal and
  the player is not, and 0 when neither is.
\<close>

theorem terminal_and_utility:
  "(is_terminal g p q \<longleftrightarrow> p = goal_position g \<or> q = goal_position g) \<and>
   (p = goal_position g \<longrightarrow> utility_function g p q = 1) \<and>
   (p \<noteq> goal_position g \<and> q = goal_position g \<longrightarrow> utility_function g p q = - 1) \<and>
   (p \<noteq> goal_position g \<and> q \<noteq> goal_position g \<longrightarrow> utility_function g p q = 0)"
  by (simp add: is_terminal_def utility_function_def)

theorem terminal_and_utility_witness:
  "is_terminal (engine corridor3 (1, 3)) (1, 3) (1, 1) \<and>
   utility_function (engine corridor3 (1, 3)) (1, 3) (1, 1) = 1 \<and>
   is_terminal (engine corridor3 (1, 3)) (1, 1) (1, 3) \<and>
   utility_function (engine corridor3 (1, 3)) (1, 1) (1, 3) = - 1 \<and>
   \<not> is_terminal (engine corridor3 (1, 3)) (1, 1) (1, 2) \<and>
   utility_function (engine corridor3 (1, 3)) (1, 1) (1, 2) = 0"
  using terminal_and_utility [of "engine corridor3 (1, 3)" "(1, 3)" "(1, 1)"]
        terminal_and_utility [of "engine corridor3 (1, 3)" "(1, 1)" "(1, 3)"]
        terminal_and_utility [of "engine corridor3 (1, 3)" "(1, 1)" "(1, 2)"]
  by (simp add: engine_def)

text \<open>
  Claim C10.  With the player and the opponent both at the goal, the utility is 1: the test
  of the player's position comes first.
\<close>

theorem utility_both_at_goal:
  "utility_function g (goal_position g) (goal_position g) = 1 \<and>
   is_terminal g (goal_position g) (goal_position g)"
  by (simp add: utility_function_def is_terminal_def)

section \<open>Stack frames: enough of them, and more of them\<close>

text \<open>
  A search that does not raise \<open>RecursionError\<close> returns the same result with any larger
  number of stack frames, and from a depth of at most \<open>MAX_DEPTH\<close> a number of frames
  above \<open>MAX_DEPTH - depth\<close> is enough: the recursion stops at the depth cutoff.
\<close>

lemma max_loop_fuel:
  assumes "\<And>m. f m \<noteq> Inl RecursionError \<Longrightarrow> f' m = f m"
    and "max_loop f ms acc \<noteq> Inl RecursionError"
  shows "max_loop f' ms acc = max_loop f ms acc"
  using assms(2)
proof (induction ms arbitrary: acc)
  case Nil
  then show ?case by simp
next
  case (Cons m ms)
  from Cons.prems have ne: "f m \<noteq> Inl RecursionError"
    by (auto split: sum.splits)
  then have eq: "f' m = f m" by (rule assms(1))
  show ?case
  proof (cases "f m")
    case (Inl e)
    with eq show ?thesis by simp
  next
    case (Inr v)
    with Cons.prems have "max_loop f ms (py_max acc v) \<noteq> Inl RecursionError" by simp
    from Cons.IH [OF this] Inr eq show ?thesis by simp
  qed
qed

lemma min_loop_fuel:
  assumes "\<And>m. f m \<noteq> Inl RecursionError \<Longrightarrow> f' m = f m"
    and "min_loop f ms acc \<noteq> Inl RecursionError"
  shows "min_loop f' ms acc = min_loop f ms acc"
  using assms(2)
proof (induction ms arbitrary: acc)
  case Nil
  then show ?case by simp
next
  case (Cons m ms)
  from Cons.prems have ne: "f m \<noteq> Inl RecursionError"
    by (auto split: sum.splits)
  then have eq: "f' m = f m" by (rule assms(1))
  show ?case
  proof (cases "f m")
    case (Inl e)
    with eq show ?thesis by simp
  next
    case (Inr v)
    with Cons.prems have "min_loop f ms (py_min acc v) \<noteq> Inl RecursionError" by simp
    from Cons.IH [OF this] Inr eq show ?thesis by simp
  qed
qed

lemma minimax_fuel_Suc:
  "minimax g n p q d t \<noteq> Inl RecursionError \<Longrightarrow> minimax g (Suc n) p q d t = minimax g n p q d t"
proof (induction n arbitrary: p q d t)
  case 0
  then show ?case by simp
next
  case (Suc n)
  show ?case
  proof (cases "d = MAX_DEPTH \<or> is_terminal g p q")
    case True
    then show ?thesis by simp
  next
    case stop: False
    show ?thesis
    proof (cases "get_possible_moves g p")
      case (Inl e)
      with stop show ?thesis by simp
    next
      case (Inr ms)
      show ?thesis
      proof (cases t)
        case True
        with stop Inr Suc.prems
        have ne: "max_loop (\<lambda>m. minimax g n m q (d + 1) False) ms NegInf \<noteq> Inl RecursionError"
          by simp
        have "max_loop (\<lambda>m. minimax g (Suc n) m q (d + 1) False) ms NegInf
              = max_loop (\<lambda>m. minimax g n m q (d + 1) False) ms NegInf"
          by (rule max_loop_fuel [OF _ ne]) (rule Suc.IH)
        with stop Inr True show ?thesis by simp
      next
        case False
        with stop Inr Suc.prems
        have ne: "min_loop (\<lambda>m. minimax g n p m (d + 1) True) ms PosInf \<noteq> Inl RecursionError"
          by simp
        have "min_loop (\<lambda>m. minimax g (Suc n) p m (d + 1) True) ms PosInf
              = min_loop (\<lambda>m. minimax g n p m (d + 1) True) ms PosInf"
          by (rule min_loop_fuel [OF _ ne]) (rule Suc.IH)
        with stop Inr False show ?thesis by simp
      qed
    qed
  qed
qed

lemma minimax_fuel_add:
  "minimax g n p q d t \<noteq> Inl RecursionError \<Longrightarrow> minimax g (n + k) p q d t = minimax g n p q d t"
proof (induction k)
  case 0
  then show ?case by simp
next
  case (Suc k)
  then have "minimax g (n + k) p q d t \<noteq> Inl RecursionError" by simp
  from minimax_fuel_Suc [OF this] Suc show ?case by simp
qed

lemma max_loop_no_recursion_error:
  "(\<And>m. f m \<noteq> Inl RecursionError) \<Longrightarrow> max_loop f ms acc \<noteq> Inl RecursionError"
  by (induction ms arbitrary: acc) (auto split: sum.splits)

lemma min_loop_no_recursion_error:
  "(\<And>m. f m \<noteq> Inl RecursionError) \<Longrightarrow> min_loop f ms acc \<noteq> Inl RecursionError"
  by (induction ms arbitrary: acc) (auto split: sum.splits)

lemma get_possible_moves_error:
  "get_possible_moves g c = Inl e \<Longrightarrow> e = TypeError"
  by (auto simp: get_possible_moves_def split: option.splits)

lemma minimax_enough_fuel:
  "d \<le> MAX_DEPTH \<Longrightarrow> nat (MAX_DEPTH - d) < n \<Longrightarrow> minimax g n p q d t \<noteq> Inl RecursionError"
proof (induction n arbitrary: p q d t)
  case 0
  then show ?case by simp
next
  case (Suc n)
  show ?case
  proof (cases "d = MAX_DEPTH \<or> is_terminal g p q")
    case True
    then show ?thesis by simp
  next
    case stop: False
    with Suc.prems have d: "d + 1 \<le> MAX_DEPTH" "nat (MAX_DEPTH - (d + 1)) < n"
      by auto
    have rec: "minimax g n p' q' (d + 1) t' \<noteq> Inl RecursionError" for p' q' t'
      by (rule Suc.IH [OF d])
    show ?thesis
    proof (cases "get_possible_moves g p")
      case (Inl e)
      with stop get_possible_moves_error [OF Inl] show ?thesis by simp
    next
      case (Inr ms)
      with stop rec show ?thesis
        by (simp add: max_loop_no_recursion_error min_loop_no_recursion_error)
    qed
  qed
qed


lemma ab_max_loop_fuel:
  assumes "\<And>m a. f m a \<noteq> Inl RecursionError \<Longrightarrow> f' m a = f m a"
    and "ab_max_loop f ms acc alpha beta \<noteq> Inl RecursionError"
  shows "ab_max_loop f' ms acc alpha beta = ab_max_loop f ms acc alpha beta"
proof (cases ms)
  case Nil
  then show ?thesis by simp
next
  case (Cons m ms')
  with assms(2) have "f m alpha \<noteq> Inl RecursionError"
    by (auto split: sum.splits)
  then have "f' m alpha = f m alpha" by (rule assms(1))
  with Cons show ?thesis by simp
qed

lemma ab_min_loop_fuel:
  assumes "\<And>m b. f m b \<noteq> Inl RecursionError \<Longrightarrow> f' m b = f m b"
    and "ab_min_loop f ms acc alpha beta \<noteq> Inl RecursionError"
  shows "ab_min_loop f' ms acc alpha beta = ab_min_loop f ms acc alpha beta"
  using assms(2)
proof (induction ms arbitrary: acc beta)
  case Nil
  then show ?case by simp
next
  case (Cons m ms)
  from Cons.prems have ne: "f m beta \<noteq> Inl RecursionError"
    by (auto split: sum.splits)
  then have eq: "f' m beta = f m beta" by (rule assms(1))
  show ?case
  proof (cases "f m beta")
    case (Inl e)
    with eq show ?thesis by simp
  next
    case (Inr r)
    show ?thesis
    proof (cases r)
      case None
      with Inr eq show ?thesis by simp
    next
      case (Some v)
      show ?thesis
      proof (cases "val_le (py_min beta v) alpha")
        case True
        with Inr Some eq show ?thesis by (simp add: Let_def)
      next
        case False
        with Cons.prems Inr Some
        have "ab_min_loop f ms (py_min acc v) alpha (py_min beta v) \<noteq> Inl RecursionError"
          by (simp add: Let_def)
        from Cons.IH [OF this] Inr Some eq False show ?thesis by (simp add: Let_def)
      qed
    qed
  qed
qed

lemma alpha_beta_fuel_Suc:
  "alpha_beta_pruning g n p q d a b t \<noteq> Inl RecursionError \<Longrightarrow>
   alpha_beta_pruning g (Suc n) p q d a b t = alpha_beta_pruning g n p q d a b t"
proof (induction n arbitrary: p q d a b t)
  case 0
  then show ?case by simp
next
  case (Suc n)
  show ?case
  proof (cases "d = MAX_DEPTH \<or> is_terminal g p q")
    case True
    then show ?thesis by simp
  next
    case stop: False
    show ?thesis
    proof (cases "get_possible_moves g p")
      case (Inl e)
      with stop show ?thesis by simp
    next
      case (Inr ms)
      show ?thesis
      proof (cases t)
        case True
        with stop Inr Suc.prems
        have ne: "ab_max_loop (\<lambda>m x. alpha_beta_pruning g n m q (d + 1) x b False) ms NegInf a b
                    \<noteq> Inl RecursionError"
          by simp
        have "ab_max_loop (\<lambda>m x. alpha_beta_pruning g (Suc n) m q (d + 1) x b False) ms NegInf a b
              = ab_max_loop (\<lambda>m x. alpha_beta_pruning g n m q (d + 1) x b False) ms NegInf a b"
          by (rule ab_max_loop_fuel [OF _ ne]) (rule Suc.IH)
        with stop Inr True show ?thesis by simp
      next
        case False
        with stop Inr Suc.prems
        have ne: "ab_min_loop (\<lambda>m x. alpha_beta_pruning g n p m (d + 1) a x True) ms PosInf a b
                    \<noteq> Inl RecursionError"
          by simp
        have "ab_min_loop (\<lambda>m x. alpha_beta_pruning g (Suc n) p m (d + 1) a x True) ms PosInf a b
              = ab_min_loop (\<lambda>m x. alpha_beta_pruning g n p m (d + 1) a x True) ms PosInf a b"
          by (rule ab_min_loop_fuel [OF _ ne]) (rule Suc.IH)
        with stop Inr False show ?thesis by simp
      qed
    qed
  qed
qed

lemma alpha_beta_fuel_add:
  "alpha_beta_pruning g n p q d a b t \<noteq> Inl RecursionError \<Longrightarrow>
   alpha_beta_pruning g (n + k) p q d a b t = alpha_beta_pruning g n p q d a b t"
proof (induction k)
  case 0
  then show ?case by simp
next
  case (Suc k)
  then have "alpha_beta_pruning g (n + k) p q d a b t \<noteq> Inl RecursionError" by simp
  from alpha_beta_fuel_Suc [OF this] Suc show ?case by simp
qed

lemma ab_max_loop_no_recursion_error:
  "(\<And>m a. f m a \<noteq> Inl RecursionError) \<Longrightarrow>
   ab_max_loop f ms acc alpha beta \<noteq> Inl RecursionError"
  by (cases ms) (auto simp: Let_def split: sum.splits option.splits)

lemma ab_min_loop_no_recursion_error:
  "(\<And>m b. f m b \<noteq> Inl RecursionError) \<Longrightarrow>
   ab_min_loop f ms acc alpha beta \<noteq> Inl RecursionError"
  by (induction ms arbitrary: acc beta) (auto simp: Let_def split: sum.splits option.splits)

lemma alpha_beta_enough_fuel:
  "d \<le> MAX_DEPTH \<Longrightarrow> nat (MAX_DEPTH - d) < n \<Longrightarrow>
   alpha_beta_pruning g n p q d a b t \<noteq> Inl RecursionError"
proof (induction n arbitrary: p q d a b t)
  case 0
  then show ?case by simp
next
  case (Suc n)
  show ?case
  proof (cases "d = MAX_DEPTH \<or> is_terminal g p q")
    case True
    then show ?thesis by simp
  next
    case stop: False
    with Suc.prems have d: "d + 1 \<le> MAX_DEPTH" "nat (MAX_DEPTH - (d + 1)) < n"
      by auto
    have rec: "alpha_beta_pruning g n p' q' (d + 1) a' b' t' \<noteq> Inl RecursionError"
      for p' q' a' b' t'
      by (rule Suc.IH [OF d])
    show ?thesis
    proof (cases "get_possible_moves g p")
      case (Inl e)
      with stop get_possible_moves_error [OF Inl] show ?thesis by simp
    next
      case (Inr ms)
      with stop rec show ?thesis
        by (simp add: ab_max_loop_no_recursion_error ab_min_loop_no_recursion_error)
    qed
  qed
qed

lemma best_loop_fuel:
  assumes "minimax g n p q 0 False \<noteq> Inl RecursionError"
    and "alpha_beta_pruning g n p q 0 NegInf PosInf False \<noteq> Inl RecursionError"
  shows "best_loop g (n + k) p q alg ms bv bm = best_loop g n p q alg ms bv bm"
proof (induction ms arbitrary: bv bm)
  case Nil
  then show ?case by simp
next
  case (Cons m ms)
  then show ?case
    by (auto simp: minimax_fuel_add [OF assms(1)] alpha_beta_fuel_add [OF assms(2)]
             split: sum.splits option.splits)
qed

lemma find_best_move_fuel:
  "6 \<le> n \<Longrightarrow> find_best_move g n p q alg = find_best_move g 6 p q alg"
proof -
  assume "6 \<le> n"
  then obtain k where n: "n = 6 + k" using le_Suc_ex by blast
  have a: "minimax g 6 p q 0 False \<noteq> Inl RecursionError"
    by (rule minimax_enough_fuel) (simp_all add: MAX_DEPTH_def)
  have b: "alpha_beta_pruning g 6 p q 0 NegInf PosInf False \<noteq> Inl RecursionError"
    by (rule alpha_beta_enough_fuel) (simp_all add: MAX_DEPTH_def)
  show ?thesis
    unfolding n find_best_move_def by (simp add: best_loop_fuel [OF a b] split: sum.splits)
qed

section \<open>Alpha-beta against minimax\<close>

text \<open>
  Claim C1 (alpha-beta from \<open>alpha = -\<infinity>\<close>, \<open>beta = +\<infinity>\<close> returns the value of minimax)
  fails on the source.  In the corridor with the goal at (1, 1), the player at (1, 2), the
  opponent at (1, 3) and the maximizer to move, the player's moves are (1, 3) and then the
  goal (1, 1).  Minimax folds over both and returns 1.  The maximizing branch of
  \<open>alpha_beta_pruning\<close> returns inside the loop body after the first move, so it returns
  the value of the move to (1, 3): 0 from depth 4, -1 from depth 0.
\<close>

theorem alpha_beta_differs_from_minimax:
  "minimax (engine corridor3 (1, 1)) (6 + k) (1, 2) (1, 3) 4 True = Inr (Num 1) \<and>
   alpha_beta_pruning (engine corridor3 (1, 1)) (6 + k) (1, 2) (1, 3) 4 NegInf PosInf True
     = Inr (Some (Num 0)) \<and>
   minimax (engine corridor3 (1, 1)) (6 + k) (1, 2) (1, 3) 0 True = Inr (Num 1) \<and>
   alpha_beta_pruning (engine corridor3 (1, 1)) (6 + k) (1, 2) (1, 3) 0 NegInf PosInf True
     = Inr (Some (Num (- 1)))"
proof -
  have m4: "minimax (engine corridor3 (1, 1)) 6 (1, 2) (1, 3) 4 True = Inr (Num 1)"
    by code_simp
  have a4: "alpha_beta_pruning (engine corridor3 (1, 1)) 6 (1, 2) (1, 3) 4 NegInf PosInf True
              = Inr (Some (Num 0))"
    by code_simp
  have m0: "minimax (engine corridor3 (1, 1)) 6 (1, 2) (1, 3) 0 True = Inr (Num 1)"
    by code_simp
  have a0: "alpha_beta_pruning (engine corridor3 (1, 1)) 6 (1, 2) (1, 3) 0 NegInf PosInf True
              = Inr (Some (Num (- 1)))"
    by code_simp
  show ?thesis
    using minimax_fuel_add [of _ 6 _ _ _ _ k] alpha_beta_fuel_add [of _ 6 _ _ _ _ _ _ k]
    by (simp add: m4 a4 m0 a0)
qed

section \<open>The minimizing ply\<close>

text \<open>
  Claim C2 (on a minimizing ply the moves are enumerated from the opponent's position) fails
  on the source: both branches call \<open>get_possible_moves(player)\<close>.  In the corridor with
  the goal at (1, 3), the player at (1, 1) and the opponent at (1, 2), the opponent's moves
  are the goal (1, 3) and (1, 1), and the state with the opponent at the goal has value -1.
  The minimizing ply at depth 4 expands the player's only move (1, 2) instead, assigns it
  to the opponent, and returns 0.
\<close>

theorem min_ply_enumerates_player_moves:
  "get_possible_moves (engine corridor3 (1, 3)) (1, 1) = Inr [(1, 2)] \<and>
   get_possible_moves (engine corridor3 (1, 3)) (1, 2) = Inr [(1, 3), (1, 1)] \<and>
   minimax (engine corridor3 (1, 3)) (6 + k) (1, 1) (1, 2) 4 False = Inr (Num 0) \<and>
   alpha_beta_pruning (engine corridor3 (1, 3)) (6 + k) (1, 1) (1, 2) 4 NegInf PosInf False
     = Inr (Some (Num 0)) \<and>
   minimax (engine corridor3 (1, 3)) (6 + k) (1, 1) (1, 3) 5 True = Inr (Num (- 1))"
proof -
  have g1: "get_possible_moves (engine corridor3 (1, 3)) (1, 1) = Inr [(1, 2)]"
    by code_simp
  have g2: "get_possible_moves (engine corridor3 (1, 3)) (1, 2) = Inr [(1, 3), (1, 1)]"
    by code_simp
  have m4: "minimax (engine corridor3 (1, 3)) 6 (1, 1) (1, 2) 4 False = Inr (Num 0)"
    by code_simp
  have a4: "alpha_beta_pruning (engine corridor3 (1, 3)) 6 (1, 1) (1, 2) 4 NegInf PosInf False
              = Inr (Some (Num 0))"
    by code_simp
  have m5: "minimax (engine corridor3 (1, 3)) 6 (1, 1) (1, 3) 5 True = Inr (Num (- 1))"
    by code_simp
  show ?thesis
    using minimax_fuel_add [of _ 6 _ _ _ _ k] alpha_beta_fuel_add [of _ 6 _ _ _ _ _ _ k]
    by (simp add: g1 g2 m4 a4 m5)
qed

section \<open>Best-move selection: the candidate is not played\<close>

text \<open>
  Claim C3 (each candidate is evaluated with the acting side's position replaced by it) fails
  on the source: every iteration calls the search with the unchanged \<open>player\<close>, so all
  candidates get the same value and the first one is kept.  In the corridor with the goal at
  (1, 1), the player at (1, 2) and the opponent at (1, 3), the candidates are (1, 3) and the
  goal (1, 1); with the player at (1, 3) the search value is -1, with the player at the goal
  it is 1, and \<open>find_best_move\<close> returns (1, 3).
\<close>

theorem find_best_move_ignores_candidate:
  "get_possible_moves (engine corridor3 (1, 1)) (1, 2) = Inr [(1, 3), (1, 1)] \<and>
   find_best_move (engine corridor3 (1, 1)) (6 + k) (1, 2) (1, 3) ''MM'' = Inr (Some (1, 3)) \<and>
   find_best_move (engine corridor3 (1, 1)) (6 + k) (1, 2) (1, 3) ''AB'' = Inr (Some (1, 3)) \<and>
   minimax (engine corridor3 (1, 1)) (6 + k) (1, 2) (1, 3) 0 False = Inr (Num (- 1)) \<and>
   minimax (engine corridor3 (1, 1)) (6 + k) (1, 3) (1, 3) 0 False = Inr (Num (- 1)) \<and>
   minimax (engine corridor3 (1, 1)) (6 + k) (1, 1) (1, 3) 0 False = Inr (Num 1)"
proof -
  have g: "get_possible_moves (engine corridor3 (1, 1)) (1, 2) = Inr [(1, 3), (1, 1)]"
    by code_simp
  have f1: "find_best_move (engine corridor3 (1, 1)) 6 (1, 2) (1, 3) ''MM'' = Inr (Some (1, 3))"
    by code_simp
  have f2: "find_best_move (engine corridor3 (1, 1)) 6 (1, 2) (1, 3) ''AB'' = Inr (Some (1, 3))"
    by code_simp
  have m0: "minimax (engine corridor3 (1, 1)) 6 (1, 2) (1, 3) 0 False = Inr (Num (- 1))"
    by code_simp
  have m1: "minimax (engine corridor3 (1, 1)) 6 (1, 3) (1, 3) 0 False = Inr (Num (- 1))"
    by code_simp
  have m2: "minimax (engine corridor3 (1, 1)) 6 (1, 1) (1, 3) 0 False = Inr (Num 1)"
    by code_simp
  show ?thesis
    using minimax_fuel_add [of _ 6 _ _ _ _ k] find_best_move_fuel [of "6 + k"]
    by (simp add: g f1 f2 m0 m1 m2)
qed

section \<open>Dead ends\<close>

text \<open>
  Claim C4 as stated (a non-terminal state below the cutoff whose acting side has no move is
  valued by the utility function) fails: in the maze with all passages closed and nobody at
  the goal, minimax on a maximizing ply returns \<open>-\<infinity>\<close>, and the utility is 0.
\<close>

theorem dead_end_counterexample:
  "\<not> is_terminal (engine sealed2 (1, 2)) (1, 1) (1, 1) \<and> (0::int) < MAX_DEPTH \<and>
   get_possible_moves (engine sealed2 (1, 2)) (1, 1) = Inr [] \<and>
   minimax (engine sealed2 (1, 2)) 6 (1, 1) (1, 1) 0 True = Inr NegInf \<and>
   Num (utility_function (engine sealed2 (1, 2)) (1, 1) (1, 1)) = Num 0 \<and>
   minimax (engine sealed2 (1, 2)) 6 (1, 1) (1, 1) 0 True
     \<noteq> Inr (Num (utility_function (engine sealed2 (1, 2)) (1, 1) (1, 1)))"
  by code_simp

text \<open>
  Claim C4, amended.  In a non-terminal state below the depth cutoff where the acting side
  has no move and the list enumerated from the player's position is empty, minimax returns
  the initial accumulator of its fold, \<open>-\<infinity>\<close> on a maximizing ply and \<open>+\<infinity>\<close> on a
  minimizing ply, and alpha-beta returns \<open>+\<infinity>\<close> on a minimizing ply.
\<close>

theorem dead_end_returns_accumulator:
  assumes "depth < MAX_DEPTH" and "\<not> is_terminal g player opponent"
    and "get_possible_moves g (if is_max_turn then player else opponent) = Inr []"
    and "get_possible_moves g player = Inr []"
  shows "minimax g (Suc fuel) player opponent depth is_max_turn
           = Inr (if is_max_turn then NegInf else PosInf) \<and>
         (\<not> is_max_turn \<longrightarrow>
            alpha_beta_pruning g (Suc fuel) player opponent depth alpha beta is_max_turn
              = Inr (Some PosInf))"
  using assms by simp

theorem dead_end_returns_accumulator_witness:
  "(0::int) < MAX_DEPTH \<and> \<not> is_terminal (engine sealed2 (1, 2)) (1, 1) (1, 1) \<and>
   get_possible_moves (engine sealed2 (1, 2)) (1, 1) = Inr [] \<and>
   minimax (engine sealed2 (1, 2)) (Suc 5) (1, 1) (1, 1) 0 True = Inr NegInf \<and>
   minimax (engine sealed2 (1, 2)) (Suc 5) (1, 1) (1, 1) 0 False = Inr PosInf \<and>
   alpha_beta_pruning (engine sealed2 (1, 2)) (Suc 5) (1, 1) (1, 1) 0 NegInf PosInf False
     = Inr (Some PosInf)"
proof -
  have d: "(0::int) < MAX_DEPTH" by (simp add: MAX_DEPTH_def)
  have t: "\<not> is_terminal (engine sealed2 (1, 2)) (1, 1) (1, 1)" by code_simp
  have e: "get_possible_moves (engine sealed2 (1, 2)) (1, 1) = Inr []" by code_simp
  have e1: "get_possible_moves (engine sealed2 (1, 2)) (if True then (1, 1) else (1, 1)) = Inr []"
    using e by simp
  have e2: "get_possible_moves (engine sealed2 (1, 2)) (if False then (1, 1) else (1, 1)) = Inr []"
    using e by simp
  show ?thesis
    using dead_end_returns_accumulator [OF d t e1 e, of 5 NegInf PosInf]
          dead_end_returns_accumulator [OF d t e2 e, of 5 NegInf PosInf]
          d t e
    by simp
qed

section \<open>Range of the search value\<close>

lemma py_max_NegInf: "py_max NegInf v = v"
  by (cases v) (simp_all add: py_max_def)

lemma py_min_PosInf: "py_min PosInf v = v"
  by (cases v) (simp_all add: py_min_def)

lemma max_loop_result:
  "max_loop f ms acc = Inr v \<Longrightarrow> v = acc \<or> (\<exists>m \<in> set ms. f m = Inr v)"
proof (induction ms arbitrary: acc)
  case Nil
  then show ?case by simp
next
  case (Cons m ms)
  then obtain x where x: "f m = Inr x" and r: "max_loop f ms (py_max acc x) = Inr v"
    by (auto split: sum.splits)
  from Cons.IH [OF r] x show ?case
    by (auto simp: py_max_def split: if_splits)
qed

lemma min_loop_result:
  "min_loop f ms acc = Inr v \<Longrightarrow> v = acc \<or> (\<exists>m \<in> set ms. f m = Inr v)"
proof (induction ms arbitrary: acc)
  case Nil
  then show ?case by simp
next
  case (Cons m ms)
  then obtain x where x: "f m = Inr x" and r: "min_loop f ms (py_min acc x) = Inr v"
    by (auto split: sum.splits)
  from Cons.IH [OF r] x show ?case
    by (auto simp: py_min_def split: if_splits)
qed

lemma max_loop_nonempty:
  assumes "ms \<noteq> []" and "max_loop f ms NegInf = Inr v"
  shows "\<exists>m \<in> set ms. f m = Inr v"
proof -
  from assms(1) obtain m ms' where ms: "ms = m # ms'" by (cases ms) auto
  with assms(2) obtain x where x: "f m = Inr x" and r: "max_loop f ms' x = Inr v"
    by (auto simp: py_max_NegInf split: sum.splits)
  from max_loop_result [OF r] x ms show ?thesis by auto
qed

lemma min_loop_nonempty:
  assumes "ms \<noteq> []" and "min_loop f ms PosInf = Inr v"
  shows "\<exists>m \<in> set ms. f m = Inr v"
proof -
  from assms(1) obtain m ms' where ms: "ms = m # ms'" by (cases ms) auto
  with assms(2) obtain x where x: "f m = Inr x" and r: "min_loop f ms' x = Inr v"
    by (auto simp: py_min_PosInf split: sum.splits)
  from min_loop_result [OF r] x ms show ?thesis by auto
qed

lemma max_loop_returns:
  "(\<And>m. m \<in> set ms \<Longrightarrow> \<exists>v. f m = Inr v) \<Longrightarrow> \<exists>v. max_loop f ms acc = Inr v"
proof (induction ms arbitrary: acc)
  case Nil
  then show ?case by simp
next
  case (Cons m ms)
  from Cons.prems [of m] obtain x where "f m = Inr x" by auto
  with Cons.IH [of "py_max acc x"] Cons.prems show ?case by simp
qed

lemma min_loop_returns:
  "(\<And>m. m \<in> set ms \<Longrightarrow> \<exists>v. f m = Inr v) \<Longrightarrow> \<exists>v. min_loop f ms acc = Inr v"
proof (induction ms arbitrary: acc)
  case Nil
  then show ?case by simp
next
  case (Cons m ms)
  from Cons.prems [of m] obtain x where "f m = Inr x" by auto
  with Cons.IH [of "py_min acc x"] Cons.prems show ?case by simp
qed

lemma ab_max_loop_result:
  "ab_max_loop f ms NegInf alpha beta = Inr (Some v) \<Longrightarrow> \<exists>m \<in> set ms. f m alpha = Inr (Some v)"
  by (cases ms)
     (auto simp: Let_def py_max_NegInf split: sum.splits option.splits if_splits)

lemma ab_min_loop_result:
  "ab_min_loop f ms acc alpha beta = Inr (Some v) \<Longrightarrow>
   v = acc \<or> (\<exists>m \<in> set ms. \<exists>b. f m b = Inr (Some v))"
proof (induction ms arbitrary: acc beta)
  case Nil
  then show ?case by simp
next
  case (Cons m ms)
  then obtain x where x: "f m beta = Inr (Some x)"
    by (auto split: sum.splits option.splits)
  show ?case
  proof (cases "val_le (py_min beta x) alpha")
    case True
    with Cons.prems x have "v = py_min acc x" by (simp add: Let_def)
    with x show ?thesis by (auto simp: py_min_def split: if_splits)
  next
    case False
    with Cons.prems x
    have "ab_min_loop f ms (py_min acc x) alpha (py_min beta x) = Inr (Some v)"
      by (simp add: Let_def)
    from Cons.IH [OF this] x show ?thesis
      by (auto simp: py_min_def split: if_splits)
  qed
qed

lemma ab_min_loop_nonempty:
  assumes "ms \<noteq> []" and "ab_min_loop f ms PosInf alpha beta = Inr (Some v)"
  shows "\<exists>m \<in> set ms. \<exists>b. f m b = Inr (Some v)"
proof -
  from assms(1) obtain m ms' where ms: "ms = m # ms'" by (cases ms) auto
  with assms(2) obtain x where x: "f m beta = Inr (Some x)"
    by (auto split: sum.splits option.splits)
  show ?thesis
  proof (cases "val_le (py_min beta x) alpha")
    case True
    with assms(2) ms x have "v = x" by (simp add: Let_def py_min_PosInf)
    with x ms show ?thesis by auto
  next
    case False
    with assms(2) ms x have "ab_min_loop f ms' x alpha (py_min beta x) = Inr (Some v)"
      by (simp add: Let_def py_min_PosInf)
    from ab_min_loop_result [OF this] x ms show ?thesis by auto
  qed
qed

lemma utility_range: "Num (utility_function g p q) \<in> {Num (- 1), Num 0, Num 1}"
  by (simp add: utility_function_def)

lemma minimax_range:
  assumes closed: "\<forall>c \<in> C. \<exists>ms. get_possible_moves g c = Inr ms \<and> ms \<noteq> [] \<and> set ms \<subseteq> C"
  shows "p \<in> C \<Longrightarrow> minimax g n p q d t = Inr v \<Longrightarrow> v \<in> {Num (- 1), Num 0, Num 1}"
proof (induction n arbitrary: p q d t v)
  case 0
  then show ?case by simp
next
  case (Suc n)
  show ?case
  proof (cases "d = MAX_DEPTH \<or> is_terminal g p q")
    case True
    with Suc.prems(2) utility_range [of g p q] show ?thesis by auto
  next
    case stop: False
    from closed Suc.prems(1) obtain ms where
      ms: "get_possible_moves g p = Inr ms" "ms \<noteq> []" "set ms \<subseteq> C"
      by blast
    show ?thesis
    proof (cases t)
      case True
      with stop ms Suc.prems(2)
      have "max_loop (\<lambda>m. minimax g n m q (d + 1) False) ms NegInf = Inr v" by simp
      from max_loop_nonempty [OF ms(2) this] obtain m where
        "m \<in> set ms" "minimax g n m q (d + 1) False = Inr v" by auto
      with ms(3) Suc.IH [of m q "d + 1" False v] show ?thesis by auto
    next
      case False
      with stop ms Suc.prems(2)
      have "min_loop (\<lambda>m. minimax g n p m (d + 1) True) ms PosInf = Inr v" by simp
      from min_loop_nonempty [OF ms(2) this] obtain m where
        "m \<in> set ms" "minimax g n p m (d + 1) True = Inr v" by auto
      with Suc.prems(1) Suc.IH [of p m "d + 1" True v] show ?thesis by auto
    qed
  qed
qed

lemma alpha_beta_range:
  assumes closed: "\<forall>c \<in> C. \<exists>ms. get_possible_moves g c = Inr ms \<and> ms \<noteq> [] \<and> set ms \<subseteq> C"
  shows "p \<in> C \<Longrightarrow> alpha_beta_pruning g n p q d a b t = Inr (Some v) \<Longrightarrow>
         v \<in> {Num (- 1), Num 0, Num 1}"
proof (induction n arbitrary: p q d a b t v)
  case 0
  then show ?case by simp
next
  case (Suc n)
  show ?case
  proof (cases "d = MAX_DEPTH \<or> is_terminal g p q")
    case True
    with Suc.prems(2) utility_range [of g p q] show ?thesis by auto
  next
    case stop: False
    from closed Suc.prems(1) obtain ms where
      ms: "get_possible_moves g p = Inr ms" "ms \<noteq> []" "set ms \<subseteq> C"
      by blast
    show ?thesis
    proof (cases t)
      case True
      with stop ms Suc.prems(2)
      have "ab_max_loop (\<lambda>m x. alpha_beta_pruning g n m q (d + 1) x b False) ms NegInf a b
              = Inr (Some v)" by simp
      from ab_max_loop_result [OF this] obtain m where
        "m \<in> set ms" "alpha_beta_pruning g n m q (d + 1) a b False = Inr (Some v)" by auto
      with ms(3) Suc.IH [of m q "d + 1" a b False v] show ?thesis by auto
    next
      case False
      with stop ms Suc.prems(2)
      have "ab_min_loop (\<lambda>m x. alpha_beta_pruning g n p m (d + 1) a x True) ms PosInf a b
              = Inr (Some v)" by simp
      from ab_min_loop_nonempty [OF ms(2) this] obtain m b' where
        "m \<in> set ms" "alpha_beta_pruning g n p m (d + 1) a b' True = Inr (Some v)" by auto
      with Suc.prems(1) Suc.IH [of p m "d + 1" a b' True v] show ?thesis by auto
    qed
  qed
qed

lemma minimax_returns:
  assumes closed: "\<forall>c \<in> C. \<exists>ms. get_possible_moves g c = Inr ms \<and> ms \<noteq> [] \<and> set ms \<subseteq> C"
  shows "p \<in> C \<Longrightarrow> d \<le> MAX_DEPTH \<Longrightarrow> nat (MAX_DEPTH - d) < n \<Longrightarrow>
         \<exists>v. minimax g n p q d t = Inr v"
proof (induction n arbitrary: p q d t)
  case 0
  then show ?case by simp
next
  case (Suc n)
  show ?case
  proof (cases "d = MAX_DEPTH \<or> is_terminal g p q")
    case True
    then show ?thesis by simp
  next
    case stop: False
    with Suc.prems have d: "d + 1 \<le> MAX_DEPTH" "nat (MAX_DEPTH - (d + 1)) < n"
      by auto
    from closed Suc.prems(1) obtain ms where
      ms: "get_possible_moves g p = Inr ms" "set ms \<subseteq> C"
      by blast
    show ?thesis
    proof (cases t)
      case True
      have "\<exists>v. max_loop (\<lambda>m. minimax g n m q (d + 1) False) ms NegInf = Inr v"
      proof (rule max_loop_returns)
        fix m assume "m \<in> set ms"
        with ms(2) have "m \<in> C" by auto
        from Suc.IH [OF this d] show "\<exists>v. minimax g n m q (d + 1) False = Inr v" .
      qed
      with stop ms True show ?thesis by simp
    next
      case False
      have "\<exists>v. min_loop (\<lambda>m. minimax g n p m (d + 1) True) ms PosInf = Inr v"
      proof (rule min_loop_returns)
        fix m
        from Suc.IH [OF Suc.prems(1) d] show "\<exists>v. minimax g n p m (d + 1) True = Inr v" .
      qed
      with stop ms False show ?thesis by simp
    qed
  qed
qed

text \<open>
  Claim C5 as stated (every value returned by minimax and by alpha-beta is -1, 0 or 1) fails:
  at a dead end minimax returns \<open>-\<infinity>\<close> and alpha-beta returns \<open>+\<infinity>\<close>.
\<close>

theorem search_value_counterexample:
  "minimax (engine sealed2 (1, 2)) 6 (1, 1) (1, 1) 0 True = Inr NegInf \<and>
   NegInf \<notin> {Num (- 1), Num 0, Num 1} \<and>
   alpha_beta_pruning (engine sealed2 (1, 2)) 6 (1, 1) (1, 1) 0 NegInf PosInf False
     = Inr (Some PosInf) \<and>
   PosInf \<notin> {Num (- 1), Num 0, Num 1}"
  by code_simp

text \<open>
  Claim C5, amended.  Let \<open>C\<close> be a set of cells that contains the player's position and in
  which every cell has an entry, at least one move, and only moves inside \<open>C\<close>.  Then
  every value returned by minimax, and every number returned by alpha-beta, is -1, 0 or 1;
  and from a depth of at most \<open>MAX_DEPTH\<close>, with more than \<open>MAX_DEPTH - depth\<close> stack
  frames, minimax does return a value.
\<close>

theorem search_value_range:
  assumes "player \<in> C"
    and "\<forall>c \<in> C. \<exists>ms. get_possible_moves g c = Inr ms \<and> ms \<noteq> [] \<and> set ms \<subseteq> C"
  shows "(\<forall>v. minimax g fuel player opponent depth is_max_turn = Inr v
            \<longrightarrow> v \<in> {Num (- 1), Num 0, Num 1}) \<and>
         (\<forall>v. alpha_beta_pruning g fuel player opponent depth alpha beta is_max_turn = Inr (Some v)
            \<longrightarrow> v \<in> {Num (- 1), Num 0, Num 1}) \<and>
         (depth \<le> MAX_DEPTH \<and> nat (MAX_DEPTH - depth) < fuel
            \<longrightarrow> (\<exists>v. minimax g fuel player opponent depth is_max_turn = Inr v))"
  using minimax_range [OF assms(2) assms(1)] alpha_beta_range [OF assms(2) assms(1)]
    minimax_returns [OF assms(2) assms(1)]
  by blast

lemma corridor3_closed:
  "\<forall>c \<in> {(1, 1), (1, 2), (1, 3)}.
     \<exists>ms. get_possible_moves (engine corridor3 (1, 1)) c = Inr ms \<and> ms \<noteq> [] \<and>
          set ms \<subseteq> {(1, 1), (1, 2), (1, 3)}"
proof -
  have "get_possible_moves (engine corridor3 (1, 1)) (1, 1) = Inr [(1, 2)]" by code_simp
  moreover have "get_possible_moves (engine corridor3 (1, 1)) (1, 2) = Inr [(1, 3), (1, 1)]"
    by code_simp
  moreover have "get_possible_moves (engine corridor3 (1, 1)) (1, 3) = Inr [(1, 2)]" by code_simp
  ultimately show ?thesis by simp
qed

theorem search_value_range_witness:
  "(1, 2) \<in> {(1, 1), (1, 2), (1, 3 :: int) :: cell} \<and>
   minimax (engine corridor3 (1, 1)) 6 (1, 2) (1, 3) 0 True = Inr (Num 1) \<and>
   Num 1 \<in> {Num (- 1), Num 0, Num 1} \<and>
   alpha_beta_pruning (engine corridor3 (1, 1)) 6 (1, 2) (1, 3) 0 NegInf PosInf True
     = Inr (Some (Num (- 1))) \<and>
   Num (- 1) \<in> {Num (- 1), Num 0, Num 1} \<and>
   (0::int) \<le> MAX_DEPTH \<and> nat (MAX_DEPTH - 0) < 6 \<and>
   (\<exists>v. minimax (engine corridor3 (1, 1)) 6 (1, 2) (1, 3) 0 True = Inr v)"
proof -
  have p: "(1, 2) \<in> {(1, 1), (1, 2), (1, 3 :: int) :: cell}" by simp
  have m: "minimax (engine corridor3 (1, 1)) 6 (1, 2) (1, 3) 0 True = Inr (Num 1)"
    by code_simp
  have a: "alpha_beta_pruning (engine corridor3 (1, 1)) 6 (1, 2) (1, 3) 0 NegInf PosInf True
             = Inr (Some (Num (- 1)))"
    by code_simp
  show ?thesis
    using search_value_range [OF p corridor3_closed, of 6 "(1, 3)" 0 True NegInf PosInf] m a
    by (simp add: MAX_DEPTH_def)
qed

section \<open>Unknown algorithm tags\<close>

lemma max_loop_error:
  "(\<And>m e. f m = Inl e \<Longrightarrow> P e) \<Longrightarrow> max_loop f ms acc = Inl e \<Longrightarrow> P e"
  by (induction ms arbitrary: acc) (auto split: sum.splits)

lemma min_loop_error:
  "(\<And>m e. f m = Inl e \<Longrightarrow> P e) \<Longrightarrow> min_loop f ms acc = Inl e \<Longrightarrow> P e"
  by (induction ms arbitrary: acc) (auto split: sum.splits)

lemma minimax_no_value_error: "minimax g n p q d t \<noteq> Inl ValueError"
proof (induction n arbitrary: p q d t)
  case 0
  then show ?case by simp
next
  case (Suc n)
  have mx: "max_loop (\<lambda>m. minimax g n m q (d + 1) False) ms acc \<noteq> Inl ValueError" for ms acc
    using max_loop_error [of "\<lambda>m. minimax g n m q (d + 1) False" "\<lambda>e. e \<noteq> ValueError" ms acc]
      Suc.IH
    by blast
  have mn: "min_loop (\<lambda>m. minimax g n p m (d + 1) True) ms acc \<noteq> Inl ValueError" for ms acc
    using min_loop_error [of "\<lambda>m. minimax g n p m (d + 1) True" "\<lambda>e. e \<noteq> ValueError" ms acc]
      Suc.IH
    by blast
  show ?case
    using mx mn by (auto split: sum.splits dest: get_possible_moves_error)
qed

lemma ab_max_loop_error:
  "(\<And>m a e. f m a = Inl e \<Longrightarrow> P e) \<Longrightarrow> P TypeError \<Longrightarrow>
   ab_max_loop f ms acc alpha beta = Inl e \<Longrightarrow> P e"
  by (cases ms) (auto simp: Let_def split: sum.splits option.splits if_splits)

lemma ab_min_loop_error:
  "(\<And>m b e. f m b = Inl e \<Longrightarrow> P e) \<Longrightarrow> P TypeError \<Longrightarrow>
   ab_min_loop f ms acc alpha beta = Inl e \<Longrightarrow> P e"
  by (induction ms arbitrary: acc beta)
     (auto simp: Let_def split: sum.splits option.splits if_splits)

lemma alpha_beta_no_value_error: "alpha_beta_pruning g n p q d a b t \<noteq> Inl ValueError"
proof (induction n arbitrary: p q d a b t)
  case 0
  then show ?case by simp
next
  case (Suc n)
  have mx: "ab_max_loop (\<lambda>m x. alpha_beta_pruning g n m q (d + 1) x b False) ms acc a b
              \<noteq> Inl ValueError" for ms acc
    using ab_max_loop_error [of "\<lambda>m x. alpha_beta_pruning g n m q (d + 1) x b False"
        "\<lambda>e. e \<noteq> ValueError" ms acc a b] Suc.IH
    by blast
  have mn: "ab_min_loop (\<lambda>m x. alpha_beta_pruning g n p m (d + 1) a x True) ms acc a b
              \<noteq> Inl ValueError" for ms acc
    using ab_min_loop_error [of "\<lambda>m x. alpha_beta_pruning g n p m (d + 1) a x True"
        "\<lambda>e. e \<noteq> ValueError" ms acc a b] Suc.IH
    by blast
  show ?case
    using mx mn by (auto split: sum.splits dest: get_possible_moves_error)
qed

lemma best_loop_supported:
  "algorithm = ''MM'' \<or> algorithm = ''AB'' \<Longrightarrow>
   best_loop g n p q algorithm ms bv bm \<noteq> Inl ValueError"
proof (induction ms arbitrary: bv bm)
  case Nil
  then show ?case by simp
next
  case (Cons m ms)
  note IH = Cons.IH [OF Cons.prems]
  from Cons.prems show ?case
  proof
    assume mm: "algorithm = ''MM''"
    show ?thesis
    proof (cases "minimax g n p q 0 False")
      case (Inl e)
      with minimax_no_value_error [of g n p q 0 False] mm show ?thesis by simp
    next
      case (Inr v)
      with mm IH show ?thesis by simp
    qed
  next
    assume ab: "algorithm = ''AB''"
    show ?thesis
    proof (cases "alpha_beta_pruning g n p q 0 NegInf PosInf False")
      case (Inl e)
      with alpha_beta_no_value_error [of g n p q 0 NegInf PosInf False] ab show ?thesis by simp
    next
      case (Inr r)
      with ab IH show ?thesis by (cases r) simp_all
    qed
  qed
qed

text \<open>
  Claim C6 as stated (a tag outside {'minimax', 'alpha-beta'} fails for every player and
  opponent position, and a tag inside that set never fails with the unsupported-algorithm
  error) fails on both counts.  The tag is tested inside the loop over the candidates, so
  for a player without a move \<open>find_best_move\<close> returns \<open>None\<close> and raises nothing.
  And the tags the source accepts are 'MM' and 'AB': called with 'minimax' or with
  'alpha-beta' and a player that has a move, it raises \<open>ValueError\<close>.
\<close>

theorem unknown_algorithm_counterexample:
  "''XX'' \<noteq> ''minimax'' \<and> ''XX'' \<noteq> ''alpha-beta'' \<and> ''XX'' \<noteq> ''MM'' \<and> ''XX'' \<noteq> ''AB'' \<and>
   find_best_move (engine sealed2 (1, 2)) 6 (1, 1) (1, 1) ''XX'' = Inr None \<and>
   find_best_move (engine corridor3 (1, 1)) 6 (1, 2) (1, 3) ''minimax'' = Inl ValueError \<and>
   find_best_move (engine corridor3 (1, 1)) 6 (1, 2) (1, 3) ''alpha-beta'' = Inl ValueError"
  by code_simp

text \<open>
  Claim C6, amended.  The supported tags are 'MM' and 'AB'.  With any other tag,
  \<open>find_best_move\<close> raises \<open>ValueError\<close> whenever the player has at least one candidate
  move, for every number of stack frames, also none: no search call comes before the
  error.  With an empty candidate list it returns \<open>None\<close>, whatever the tag.  With the tag
  'MM' or 'AB' it never raises \<open>ValueError\<close>.
\<close>

theorem unknown_algorithm:
  "(algorithm \<noteq> ''MM'' \<and> algorithm \<noteq> ''AB'' \<and> get_possible_moves g player = Inr (m # ms)
      \<longrightarrow> find_best_move g fuel player opponent algorithm = Inl ValueError) \<and>
   (get_possible_moves g player = Inr []
      \<longrightarrow> find_best_move g fuel player opponent algorithm = Inr None) \<and>
   (algorithm = ''MM'' \<or> algorithm = ''AB''
      \<longrightarrow> find_best_move g fuel player opponent algorithm \<noteq> Inl ValueError)"
proof (intro conjI impI)
  assume "algorithm = ''MM'' \<or> algorithm = ''AB''"
  from best_loop_supported [OF this]
  show "find_best_move g fuel player opponent algorithm \<noteq> Inl ValueError"
    by (auto simp: find_best_move_def split: sum.splits dest: get_possible_moves_error)
qed (simp_all add: find_best_move_def)

theorem unknown_algorithm_witness:
  "get_possible_moves (engine corridor3 (1, 1)) (1, 2) = Inr [(1, 3), (1, 1)] \<and>
   find_best_move (engine corridor3 (1, 1)) 0 (1, 2) (1, 3) ''XX'' = Inl ValueError \<and>
   find_best_move (engine corridor3 (1, 1)) 0 (1, 2) (1, 3) ''minimax'' = Inl ValueError \<and>
   get_possible_moves (engine sealed2 (1, 2)) (1, 1) = Inr [] \<and>
   find_best_move (engine sealed2 (1, 2)) 6 (1, 1) (1, 1) ''XX'' = Inr None \<and>
   find_best_move (engine sealed2 (1, 2)) 6 (1, 1) (1, 1) ''MM'' = Inr None \<and>
   find_best_move (engine corridor3 (1, 1)) 6 (1, 2) (1, 3) ''MM'' \<noteq> Inl ValueError \<and>
   find_best_move (engine corridor3 (1, 1)) 6 (1, 2) (1, 3) ''AB'' \<noteq> Inl ValueError"
proof -
  have g1: "get_possible_moves (engine corridor3 (1, 1)) (1, 2) = Inr [(1, 3), (1, 1)]"
    by code_simp
  have g2: "get_possible_moves (engine sealed2 (1, 2)) (1, 1) = Inr []"
    by code_simp
  show ?thesis
    using unknown_algorithm [of "''XX''" "engine corridor3 (1, 1)" "(1, 2)" "(1, 3)" "[(1, 1)]"
            0 "(1, 3)"]
          unknown_algorithm [of "''minimax''" "engine corridor3 (1, 1)" "(1, 2)" "(1, 3)"
            "[(1, 1)]" 0 "(1, 3)"]
          unknown_algorithm [of "''XX''" "engine sealed2 (1, 2)" "(1, 1)" "(1, 3)" "[(1, 1)]"
            6 "(1, 1)"]
          unknown_algorithm [of "''MM''" "engine sealed2 (1, 2)" "(1, 1)" "(1, 3)" "[(1, 1)]"
            6 "(1, 1)"]
          unknown_algorithm [of "''MM''" "engine corridor3 (1, 1)" "(1, 2)" "(1, 3)" "[(1, 1)]"
            6 "(1, 3)"]
          unknown_algorithm [of "''AB''" "engine corridor3 (1, 1)" "(1, 2)" "(1, 3)" "[(1, 1)]"
            6 "(1, 3)"]
    by (simp add: g1 g2)
qed

end
